theory Spec2Isabelle
  imports Complex_Main "HOL-Library.AList" "HOL-Library.Multiset"
begin

section \<open>Transcript Stream Reconciler (app/settings/page.tsx, lines 442-614)\<close>

subsection \<open>Data\<close>

text \<open>
  Modelled from the spec: the declaration of \<^verbatim>\<open>TranscriptUpdate\<close>, which line 130 imports
  from \<^verbatim>\<open>@/types\<close>, a file that is not among the sources. The fields are those of the
  \<^verbatim>\<open>transcript-update\<close> event in section 6 of the specification, which are also the ones
  the listener reads at lines 567-579. Sequence numbers are integers; times in seconds
  are idealised as reals (no NaN, no infinities).
\<close>

record TranscriptUpdate =
  u_text :: string
  u_timestamp :: string
  u_sequence_id :: int
  u_chunk_start_time :: real
  u_is_partial :: bool
  u_confidence :: real
  u_audio_start_time :: real
  u_audio_end_time :: real
  u_duration :: real

text \<open>
  Modelled from the spec: the declaration of \<^verbatim>\<open>Transcript\<close>, imported from the same
  missing file. The fields are those of \<^verbatim>\<open>TranscriptSegment\<close> in section 3 of the
  specification, under the names the listener gives them at lines 567-579. The source's
  \<^verbatim>\<open>id\<close> is the string \<^verbatim>\<open>`${Date.now()}-${transcriptCounter++}`\<close>; it is kept as the pair
  of the two numbers it is printed from, the clock reading in milliseconds since the
  epoch (a natural number) and the counter. \<^verbatim>\<open>sequence_id\<close> and \<^verbatim>\<open>chunk_start_time\<close>
  are read as optional by the source (\<^verbatim>\<open>!== undefined\<close>, \<^verbatim>\<open>|| 0\<close>), hence options.
\<close>

record Transcript =
  t_id :: "nat \<times> nat"
  t_text :: string
  t_timestamp :: string
  sequence_id :: "int option"
  chunk_start_time :: "real option"
  is_partial :: bool
  confidence :: real
  audio_start_time :: real
  audio_end_time :: real
  duration :: real

text \<open>
  The closure variables of the effect (lines 444-447) and the React state
  \<^verbatim>\<open>transcripts\<close> (line 175) that \<^verbatim>\<open>setTranscripts\<close> updates. \<^verbatim>\<open>transcriptBuffer\<close> is a
  JavaScript \<^verbatim>\<open>Map\<close>, which iterates in insertion order: an association list in that
  order. \<^verbatim>\<open>processingTimer\<close> records whether a timeout is pending. The updater of line
  507 is taken to run when it is queued. The other writers of \<^verbatim>\<open>transcripts\<close> are
  not part of the reconciler; they come with \<open>page_run\<close> below.
\<close>

record reconciler =
  transcriptCounter :: nat
  transcriptBuffer :: "(int \<times> Transcript) list"
  lastProcessedSequence :: int
  processingTimer :: bool
  transcripts :: "Transcript list"

definition initial_reconciler :: reconciler where
  "initial_reconciler =
     \<lparr>transcriptCounter = 0, transcriptBuffer = [], lastProcessedSequence = 0,
      processingTimer = False, transcripts = []\<rparr>"

subsection \<open>The reduction pass\<close>

text \<open>\<^verbatim>\<open>transcriptBuffer.has(k)\<close>.\<close>

definition buffer_has :: "(int \<times> Transcript) list \<Rightarrow> int \<Rightarrow> bool" where
  "buffer_has buf k = (map_of buf k \<noteq> None)"

text \<open>
  Lines 453-460: the sequential drain. \<^verbatim>\<open>nextSequence\<close> is always
  \<^verbatim>\<open>lastProcessedSequence + 1\<close>; each round removes one entry, so the loop ends.
\<close>

function sequential_drain ::
  "(int \<times> Transcript) list \<Rightarrow> int \<Rightarrow> Transcript list
     \<Rightarrow> (int \<times> Transcript) list \<times> int \<times> Transcript list" where
  "sequential_drain buf lastSeq sortedTranscripts =
     (case map_of buf (lastSeq + 1) of
        None \<Rightarrow> (buf, lastSeq, sortedTranscripts)
      | Some bufferedTranscript \<Rightarrow>
          sequential_drain (AList.delete (lastSeq + 1) buf) (lastSeq + 1)
            (sortedTranscripts @ [bufferedTranscript]))"
  by pat_completeness auto

lemma length_delete_less:
  "map_of buf k = Some v \<Longrightarrow> length (AList.delete k buf) < length buf"
proof (induction buf)
  case Nil
  then show ?case by simp
next
  case (Cons p ps)
  show ?case
  proof (cases "fst p = k")
    case True
    then show ?thesis by (cases p) (simp add: AList.delete_eq less_Suc_eq_le)
  next
    case False
    then show ?thesis using Cons by (cases p) (auto simp: AList.delete_eq)
  qed
qed

termination sequential_drain
  by (relation "measure (\<lambda>(buf, lastSeq, acc). length buf)")
     (auto simp: length_delete_less)

declare sequential_drain.simps [simp del]

text \<open>
  Line 477: \<^verbatim>\<open>now - parseInt(transcript.id.split('-')[0])\<close>, the clock reading of the pass
  minus the one printed into the id at arrival. \<^verbatim>\<open>Date.now()\<close> is the wall clock, so the
  difference is an integer that may be negative.
\<close>

definition transcriptAge :: "nat \<Rightarrow> Transcript \<Rightarrow> int" where
  "transcriptAge now transcript = int now - int (fst (t_id transcript))"

definition staleThreshold :: int where
  "staleThreshold = 100"

definition recentThreshold :: int where
  "recentThreshold = 0"

text \<open>
  Lines 466-489: the loop over the remaining entries, in the buffer's order. The result
  is \<^verbatim>\<open>(staleTranscripts, recentTranscripts, forceFlushTranscripts)\<close> and the entries
  that were not deleted.
\<close>

fun drain_remaining ::
  "bool \<Rightarrow> nat \<Rightarrow> (int \<times> Transcript) list
     \<Rightarrow> Transcript list \<times> Transcript list \<times> Transcript list \<times> (int \<times> Transcript) list" where
  "drain_remaining forceFlush now [] = ([], [], [], [])"
| "drain_remaining forceFlush now ((sequenceId, transcript) # entries) =
     (case drain_remaining forceFlush now entries of
        (staleTranscripts, recentTranscripts, forceFlushTranscripts, kept) \<Rightarrow>
          if forceFlush then
            (staleTranscripts, recentTranscripts, transcript # forceFlushTranscripts, kept)
          else if transcriptAge now transcript > staleThreshold then
            (transcript # staleTranscripts, recentTranscripts, forceFlushTranscripts, kept)
          else if transcriptAge now transcript \<ge> recentThreshold then
            (staleTranscripts, transcript # recentTranscripts, forceFlushTranscripts, kept)
          else
            (staleTranscripts, recentTranscripts, forceFlushTranscripts,
             (sequenceId, transcript) # kept))"

text \<open>JavaScript's \<^verbatim>\<open>x || 0\<close> on an optional number.\<close>

definition or0 :: "'a::zero option \<Rightarrow> 'a" where
  "or0 x = (case x of None \<Rightarrow> 0 | Some v \<Rightarrow> v)"

text \<open>The comparator of lines 493-497 and 528-532.\<close>

definition compareTranscripts :: "Transcript \<Rightarrow> Transcript \<Rightarrow> real" where
  "compareTranscripts a b =
     (let chunkTimeDiff = or0 (chunk_start_time a) - or0 (chunk_start_time b)
      in if chunkTimeDiff \<noteq> 0 then chunkTimeDiff
         else real_of_int (or0 (sequence_id a) - or0 (sequence_id b)))"

text \<open>
  \<^verbatim>\<open>Array.prototype.sort\<close> with a comparator is a stable sort: an insertion sort that
  puts an element before the first one it does not compare greater than.
\<close>

fun insert_sorted :: "('a \<Rightarrow> 'a \<Rightarrow> real) \<Rightarrow> 'a \<Rightarrow> 'a list \<Rightarrow> 'a list" where
  "insert_sorted cmp x [] = [x]"
| "insert_sorted cmp x (y # ys) =
     (if cmp x y \<le> 0 then x # y # ys else y # insert_sorted cmp x ys)"

definition array_sort :: "('a \<Rightarrow> 'a \<Rightarrow> real) \<Rightarrow> 'a list \<Rightarrow> 'a list" where
  "array_sort cmp xs = foldr (insert_sorted cmp) xs []"

definition sortTranscripts :: "Transcript list \<Rightarrow> Transcript list" where
  "sortTranscripts ts = array_sort compareTranscripts ts"

text \<open>The updater passed to \<^verbatim>\<open>setTranscripts\<close>, lines 507-533.\<close>

definition merge_transcripts :: "Transcript list \<Rightarrow> Transcript list \<Rightarrow> Transcript list" where
  "merge_transcripts allNewTranscripts prev =
     (let existingSequenceIds = filter (\<lambda>i. i \<noteq> None) (map sequence_id prev);
          uniqueNewTranscripts =
            filter (\<lambda>t. sequence_id t \<noteq> None \<and> sequence_id t \<notin> set existingSequenceIds)
              allNewTranscripts
      in if uniqueNewTranscripts = [] then prev
         else array_sort compareTranscripts (prev @ uniqueNewTranscripts))"

text \<open>
  \<^verbatim>\<open>processBufferedTranscripts(forceFlush)\<close>, lines 449-541, with the value that
  \<^verbatim>\<open>Date.now()\<close> returns at line 463 as a parameter.
\<close>

definition processBufferedTranscripts :: "bool \<Rightarrow> nat \<Rightarrow> reconciler \<Rightarrow> reconciler" where
  "processBufferedTranscripts forceFlush now s =
     (case sequential_drain (transcriptBuffer s) (lastProcessedSequence s) [] of
        (buf1, lastSeq, sortedTranscripts) \<Rightarrow>
          (case drain_remaining forceFlush now buf1 of
             (staleTranscripts, recentTranscripts, forceFlushTranscripts, kept) \<Rightarrow>
               let allNewTranscripts =
                     sortedTranscripts @ sortTranscripts recentTranscripts
                       @ sortTranscripts staleTranscripts
                       @ sortTranscripts forceFlushTranscripts
               in s\<lparr>transcriptBuffer := kept,
                     lastProcessedSequence := lastSeq,
                     transcripts :=
                       (if allNewTranscripts \<noteq> []
                        then merge_transcripts allNewTranscripts (transcripts s)
                        else transcripts s)\<rparr>))"

subsection \<open>The listener\<close>

text \<open>
  The handler of \<^verbatim>\<open>transcript-update\<close>, lines 549-592, with the clock reading as a
  parameter. \<^verbatim>\<open>Map.set\<close> on a key that is absent appends the entry.
\<close>

definition on_transcript_update :: "nat \<Rightarrow> TranscriptUpdate \<Rightarrow> reconciler \<Rightarrow> reconciler" where
  "on_transcript_update now payload s =
     (if buffer_has (transcriptBuffer s) (u_sequence_id payload) then s
      else
        let newTranscript =
              \<lparr>t_id = (now, transcriptCounter s),
               t_text = u_text payload,
               t_timestamp = u_timestamp payload,
               sequence_id = Some (u_sequence_id payload),
               chunk_start_time = Some (u_chunk_start_time payload),
               is_partial = u_is_partial payload,
               confidence = u_confidence payload,
               audio_start_time = u_audio_start_time payload,
               audio_end_time = u_audio_end_time payload,
               duration = u_duration payload\<rparr>
        in s\<lparr>transcriptCounter := transcriptCounter s + 1,
              transcriptBuffer :=
                AList.update (u_sequence_id payload) newTranscript (transcriptBuffer s),
              processingTimer := True\<rparr>)"

text \<open>
  What happens to the reconciler: a segment arrives, the pending timeout of line 591
  fires (it calls \<^verbatim>\<open>processBufferedTranscripts\<close> with no argument, so
  \<^verbatim>\<open>forceFlush\<close> is false), or \<^verbatim>\<open>finalFlushRef.current()\<close> runs (line 544). Each carries
  the clock reading it sees.
\<close>

datatype event =
  Arrival nat TranscriptUpdate
| TimerFired nat
| FinalFlush nat

fun step :: "reconciler \<Rightarrow> event \<Rightarrow> reconciler" where
  "step s (Arrival now payload) = on_transcript_update now payload s"
| "step s (TimerFired now) =
     (if processingTimer s
      then processBufferedTranscripts False now (s\<lparr>processingTimer := False\<rparr>)
      else s)"
| "step s (FinalFlush now) = processBufferedTranscripts True now s"

text \<open>
  A run of the reconciler alone, from the state at mount: the output while nothing else
  writes it.
\<close>

definition run :: "event list \<Rightarrow> reconciler" where
  "run events = foldl step initial_reconciler events"




section \<open>Recording State Synchronizer (contexts/RecordingStateContext.tsx)\<close>

text \<open>The interface \<^verbatim>\<open>RecordingState\<close>, lines 16-22; \<^verbatim>\<open>null\<close> durations are \<open>None\<close>.\<close>

record RecordingState =
  isRecording :: bool
  isPaused :: bool
  isActive :: bool
  recordingDuration :: "real option"
  activeDuration :: "real option"

text \<open>What \<^verbatim>\<open>invoke('get_recording_state')\<close> resolves to, lines 56-62.\<close>

record BackendState =
  is_recording :: bool
  is_paused :: bool
  is_active :: bool
  recording_duration :: "real option"
  active_duration :: "real option"

text \<open>The provider: the React state and whether \<^verbatim>\<open>pollingIntervalRef\<close> holds an interval.\<close>

record synchronizer =
  state :: RecordingState
  pollingIntervalRef :: bool

definition initial_synchronizer :: synchronizer where
  "initial_synchronizer =
     \<lparr>state = \<lparr>isRecording = False, isPaused = False, isActive = False,
                recordingDuration = None, activeDuration = None\<rparr>,
      pollingIntervalRef = False\<rparr>"

text \<open>
  \<^verbatim>\<open>syncWithBackend\<close>, lines 54-77. The argument is the outcome of the query: \<open>None\<close>
  when \<^verbatim>\<open>invoke\<close> rejects and the \<^verbatim>\<open>catch\<close> branch runs.
\<close>

definition syncWithBackend :: "BackendState option \<Rightarrow> synchronizer \<Rightarrow> synchronizer" where
  "syncWithBackend response s =
     (case response of
        None \<Rightarrow> s
      | Some backendState \<Rightarrow>
          s\<lparr>state :=
              \<lparr>isRecording = is_recording backendState,
               isPaused = is_paused backendState,
               isActive = is_active backendState,
               recordingDuration = recording_duration backendState,
               activeDuration = active_duration backendState\<rparr>\<rparr>)"

definition startPolling :: "synchronizer \<Rightarrow> synchronizer" where
  "startPolling s = s\<lparr>pollingIntervalRef := True\<rparr>"

definition stopPolling :: "synchronizer \<Rightarrow> synchronizer" where
  "stopPolling s = s\<lparr>pollingIntervalRef := False\<rparr>"

text \<open>The four listeners of \<^verbatim>\<open>setupListeners\<close>, lines 115-161.\<close>

definition on_recording_started :: "synchronizer \<Rightarrow> synchronizer" where
  "on_recording_started s =
     startPolling (s\<lparr>state := (state s)\<lparr>isRecording := True, isPaused := False, isActive := True\<rparr>\<rparr>)"

definition on_recording_stopped :: "synchronizer \<Rightarrow> synchronizer" where
  "on_recording_stopped s =
     stopPolling
       (s\<lparr>state := \<lparr>isRecording = False, isPaused = False, isActive = False,
                     recordingDuration = None, activeDuration = None\<rparr>\<rparr>)"

definition on_recording_paused :: "synchronizer \<Rightarrow> synchronizer" where
  "on_recording_paused s = s\<lparr>state := (state s)\<lparr>isPaused := True, isActive := False\<rparr>\<rparr>"

definition on_recording_resumed :: "synchronizer \<Rightarrow> synchronizer" where
  "on_recording_resumed s = s\<lparr>state := (state s)\<lparr>isPaused := False, isActive := True\<rparr>\<rparr>"

text \<open>
  The operations that change the cached state: the sync at mount (lines 182-188), a tick
  of the 500 ms interval (which exists only between \<^verbatim>\<open>startPolling\<close> and
  \<^verbatim>\<open>stopPolling\<close>), and the four events.
\<close>

datatype sync_event =
  InitialSync "BackendState option"
| PollTick "BackendState option"
| RecordingStarted
| RecordingStopped
| RecordingPaused
| RecordingResumed

fun sync_step :: "synchronizer \<Rightarrow> sync_event \<Rightarrow> synchronizer" where
  "sync_step s (InitialSync response) = syncWithBackend response s"
| "sync_step s (PollTick response) =
     (if pollingIntervalRef s then syncWithBackend response s else s)"
| "sync_step s RecordingStarted = on_recording_started s"
| "sync_step s RecordingStopped = on_recording_stopped s"
| "sync_step s RecordingPaused = on_recording_paused s"
| "sync_step s RecordingResumed = on_recording_resumed s"

definition sync_run :: "sync_event list \<Rightarrow> synchronizer" where
  "sync_run events = foldl sync_step initial_synchronizer events"

text \<open>The relation that the comment at line 19 gives for \<^verbatim>\<open>isActive\<close>.\<close>

definition active_consistent :: "RecordingState \<Rightarrow> bool" where
  "active_consistent st = (isActive st = (isRecording st \<and> \<not> isPaused st))"

definition backend_consistent :: "BackendState \<Rightarrow> bool" where
  "backend_consistent b = (is_active b = (is_recording b \<and> \<not> is_paused b))"

section \<open>Stop/Flush Protocol (\<^verbatim>\<open>handleRecordingStop2\<close>, app/settings/page.tsx, lines 1085-1359)\<close>

text \<open>What \<^verbatim>\<open>invoke('get_transcription_status')\<close> resolves to, line 1125.\<close>

record TranscriptionStatus =
  chunks_in_queue :: int
  is_processing :: bool
  last_activity_ms :: int

text \<open>
  What the environment does during one round of the polling loop: whether the
  \<^verbatim>\<open>transcription-complete\<close> handler of line 1115 ran while the status query was
  awaited, the outcome of the query (\<open>None\<close> when \<^verbatim>\<open>invoke\<close> rejects), and whether the
  handler ran during the wait of line 1149.
\<close>

record poll_round =
  complete_during_query :: bool
  query_result :: "TranscriptionStatus option"
  complete_during_wait :: bool

definition MAX_WAIT_TIME :: int where
  "MAX_WAIT_TIME = 60000"

definition POLL_INTERVAL :: int where
  "POLL_INTERVAL = 500"

text \<open>The calls of the protocol that the claims speak of, in the order they are made.\<close>

datatype action =
  GetTranscriptionStatus
| Sleep int
| UnlistenComplete
| FinalFlushCall
| ApiSaveTranscript "string option" "Transcript list" "string option"

text \<open>
  The loop of lines 1123-1155. \<open>i\<close> counts the rounds, so that round \<open>i\<close> meets
  \<open>rounds i\<close>; the result is \<^verbatim>\<open>elapsedTime\<close>, \<^verbatim>\<open>transcriptionComplete\<close> and the calls
  made. The \<^verbatim>\<open>catch\<close> of line 1151 leaves the loop.
\<close>

function poll_loop ::
  "(nat \<Rightarrow> poll_round) \<Rightarrow> nat \<Rightarrow> int \<Rightarrow> bool \<Rightarrow> action list
     \<Rightarrow> int \<times> bool \<times> action list" where
  "poll_loop rounds i elapsedTime transcriptionComplete calls =
     (if elapsedTime < MAX_WAIT_TIME \<and> \<not> transcriptionComplete then
        (case query_result (rounds i) of
           None \<Rightarrow>
             (elapsedTime, complete_during_query (rounds i), calls @ [GetTranscriptionStatus])
         | Some status \<Rightarrow>
             if \<not> is_processing status \<and> chunks_in_queue status = 0 then
               (elapsedTime, True, calls @ [GetTranscriptionStatus])
             else if last_activity_ms status > 8000 \<and> chunks_in_queue status = 0 then
               (elapsedTime, True, calls @ [GetTranscriptionStatus])
             else
               poll_loop rounds (Suc i) (elapsedTime + POLL_INTERVAL)
                 (complete_during_query (rounds i) \<or> complete_during_wait (rounds i))
                 (calls @ [GetTranscriptionStatus, Sleep POLL_INTERVAL]))
      else (elapsedTime, transcriptionComplete, calls))"
  by pat_completeness auto
termination
  by (relation "measure (\<lambda>(rounds, i, elapsedTime, c, calls). nat (MAX_WAIT_TIME - elapsedTime))")
     (auto simp: MAX_WAIT_TIME_def POLL_INTERVAL_def)

declare poll_loop.simps [simp del]

text \<open>
  The response of \<^verbatim>\<open>invoke('api_save_transcript')\<close>, lines 1222-1232: a rejection, or a
  response whose \<^verbatim>\<open>meeting_id\<close> may be missing.
\<close>

datatype save_response =
  SaveRejected
| SaveReturned "string option"

datatype outcome =
  Saved string
| SaveFailed
| NotSaved

text \<open>
  The part of the page's state the protocol reads and writes: the reconciler, whether
  \<^verbatim>\<open>finalFlushRef.current\<close> is set (line 544 sets it at mount), the title, the two
  entries of \<^verbatim>\<open>sessionStorage\<close>, and the flags.
\<close>

record page =
  reconciler_state :: reconciler
  finalFlushRef :: bool
  meetingTitle :: string
  last_recording_folder_path :: "string option"
  last_recording_meeting_name :: "string option"
  isRecordingDisabled :: bool
  isProcessingTranscript :: bool
  isStopping :: bool
  isSavingTranscript :: bool
  isMeetingActive :: bool

text \<open>
  What the environment does during one run: the rounds of the polling loop, the
  reconciler's events up to the flush of line 1180, the clock reading of that flush, the
  reconciler's events during the wait of line 1197, and the response to the save.
\<close>

record stop_env =
  rounds :: "nat \<Rightarrow> poll_round"
  events_before_flush :: "event list"
  flush_now :: nat
  events_after_flush :: "event list"
  save_result :: save_response

record stop_run =
  elapsed :: int
  completed :: bool
  calls :: "action list"
  page_after :: page
  result :: outcome

text \<open>\<^verbatim>\<open>meetingTitle || savedMeetingName\<close>, line 1223.\<close>

definition title_or :: "string \<Rightarrow> string option \<Rightarrow> string option" where
  "title_or title savedMeetingName = (if title \<noteq> [] then Some title else savedMeetingName)"

text \<open>
  \<^verbatim>\<open>handleRecordingStop2(isCallApi)\<close> up to the save and the clean-up of
  \<^verbatim>\<open>sessionStorage\<close> (line 1240), and its \<^verbatim>\<open>catch\<close> (lines 1350-1358) for a save that
  fails: a rejection, or a response whose \<^verbatim>\<open>meeting_id\<close> is missing or empty
  (\<^verbatim>\<open>!meetingId\<close>, line 1229). The dynamic imports, \<^verbatim>\<open>listen\<close> and the calls after
  line 1240 are taken to succeed.
\<close>

definition handleRecordingStop2 :: "bool \<Rightarrow> stop_env \<Rightarrow> page \<Rightarrow> stop_run" where
  "handleRecordingStop2 isCallApi env pg =
     (case poll_loop (rounds env) 0 0 False [] of
        (elapsedTime, transcriptionComplete, polled) \<Rightarrow>
          let pg0 = pg\<lparr>isRecordingDisabled := True, isProcessingTranscript := True\<rparr>;
              waited =
                polled @ [UnlistenComplete]
                  @ (if \<not> transcriptionComplete \<and> elapsedTime \<ge> MAX_WAIT_TIME then []
                     else [Sleep 4000]);
              rs1 = foldl step (reconciler_state pg0) (events_before_flush env);
              rs2 = (if finalFlushRef pg0
                     then processBufferedTranscripts True (flush_now env) rs1 else rs1);
              flushed = waited @ (if finalFlushRef pg0 then [FinalFlushCall] else [])
                          @ [Sleep 500];
              rs3 = foldl step rs2 (events_after_flush env);
              pg1 = pg0\<lparr>reconciler_state := rs3, isProcessingTranscript := False,
                        isStopping := False\<rparr>
          in if isCallApi \<and> transcriptionComplete then
               let freshTranscripts = transcripts rs3;
                   folderPath = last_recording_folder_path pg1;
                   savedMeetingName = last_recording_meeting_name pg1;
                   saving = flushed
                     @ [ApiSaveTranscript (title_or (meetingTitle pg1) savedMeetingName)
                          freshTranscripts folderPath];
                   failed =
                     \<lparr>elapsed = elapsedTime, completed = transcriptionComplete,
                      calls = saving,
                      page_after = pg1\<lparr>isSavingTranscript := False,
                                        isRecordingDisabled := False\<rparr>,
                      result = SaveFailed\<rparr>
               in (case save_result env of
                     SaveRejected \<Rightarrow> failed
                   | SaveReturned None \<Rightarrow> failed
                   | SaveReturned (Some meetingId) \<Rightarrow>
                       if meetingId = [] then failed
                       else
                         \<lparr>elapsed = elapsedTime, completed = transcriptionComplete,
                          calls = saving,
                          page_after = pg1\<lparr>last_recording_folder_path := None,
                                            last_recording_meeting_name := None,
                                            isSavingTranscript := False,
                                            isMeetingActive := False,
                                            isRecordingDisabled := False\<rparr>,
                          result = Saved meetingId\<rparr>)
             else
               \<lparr>elapsed = elapsedTime, completed = transcriptionComplete,
                calls = flushed,
                page_after = pg1\<lparr>isMeetingActive := False, isRecordingDisabled := False\<rparr>,
                result = NotSaved\<rparr>)"

section \<open>Predicates of the claims and concrete inputs\<close>

text \<open>
  The order of the claims: \<^verbatim>\<open>chunk_start_time\<close> ascending, then \<^verbatim>\<open>sequence_id\<close> ascending,
  each read with \<^verbatim>\<open>|| 0\<close> as the comparator reads it.
\<close>

definition transcript_le :: "Transcript \<Rightarrow> Transcript \<Rightarrow> bool" where
  "transcript_le a b =
     (or0 (chunk_start_time a) < or0 (chunk_start_time b)
      \<or> (or0 (chunk_start_time a) = or0 (chunk_start_time b)
          \<and> or0 (sequence_id a) \<le> or0 (sequence_id b)))"

text \<open>
  A buffer as the listener builds it: no key twice, and every entry filed under its own
  \<^verbatim>\<open>sequence_id\<close>.
\<close>

definition buffer_ok :: "(int \<times> Transcript) list \<Rightarrow> bool" where
  "buffer_ok buf =
     (distinct (map fst buf) \<and> (\<forall>p\<in>set buf. sequence_id (snd p) = Some (fst p)))"

text \<open>The sequence numbers delivered by a list of events.\<close>

fun arrived :: "event list \<Rightarrow> int list" where
  "arrived [] = []"
| "arrived (Arrival now payload # es) = u_sequence_id payload # arrived es"
| "arrived (e # es) = arrived es"

text \<open>
  What every reachable state of the reconciler satisfies: a well-formed buffer, an output
  in order with no sequence number twice and none missing, and every number from 1 to the
  watermark in the output.
\<close>

definition reconciler_inv :: "reconciler \<Rightarrow> bool" where
  "reconciler_inv s =
     (buffer_ok (transcriptBuffer s)
      \<and> sorted_wrt transcript_le (transcripts s)
      \<and> distinct (map sequence_id (transcripts s))
      \<and> None \<notin> set (map sequence_id (transcripts s))
      \<and> (\<forall>k. 0 < k \<and> k \<le> lastProcessedSequence s
             \<longrightarrow> Some k \<in> set (map sequence_id (transcripts s))))"

text \<open>A payload to run the model on: sequence number \<open>n\<close>, chunk start \<open>c\<close>.\<close>

definition segment :: "int \<Rightarrow> real \<Rightarrow> TranscriptUpdate" where
  "segment n c =
     \<lparr>u_text = ''hello'', u_timestamp = ''00:00:01'', u_sequence_id = n,
      u_chunk_start_time = c, u_is_partial = False, u_confidence = 1,
      u_audio_start_time = c, u_audio_end_time = c + 1, u_duration = 1\<rparr>"






text \<open>Condition (b) of the specification: the queue is empty and nothing is processing.\<close>

definition queue_idle :: "TranscriptionStatus \<Rightarrow> bool" where
  "queue_idle st = (chunks_in_queue st = 0 \<and> \<not> is_processing st)"

text \<open>
  Condition (c) of the specification: the queue is empty and the last activity is more
  than 8 seconds old.
\<close>

definition queue_quiet :: "TranscriptionStatus \<Rightarrow> bool" where
  "queue_quiet st = (chunks_in_queue st = 0 \<and> last_activity_ms st > 8000)"

text \<open>
  A round in which one of the three conditions holds: the completion event arrives (a),
  or the status answers (b) or (c). The event during the wait counts when the status
  was answered, since a failed query leaves the loop before the wait.
\<close>

definition declares_completion :: "poll_round \<Rightarrow> bool" where
  "declares_completion r =
     (complete_during_query r
      \<or> (case query_result r of
            None \<Rightarrow> False
          | Some st \<Rightarrow> queue_idle st \<or> queue_quiet st \<or> complete_during_wait r))"

text \<open>A round that changes nothing: a status that is neither (b) nor (c), and no event.\<close>

definition uneventful :: "poll_round \<Rightarrow> bool" where
  "uneventful r =
     (\<not> complete_during_query r \<and> \<not> complete_during_wait r
      \<and> (case query_result r of
            None \<Rightarrow> False
          | Some st \<Rightarrow> \<not> queue_idle st \<and> \<not> queue_quiet st))"

text \<open>Rounds, environments and a page to run the protocol on.\<close>

definition busy_round :: poll_round where
  "busy_round =
     \<lparr>complete_during_query = False,
      query_result = Some \<lparr>chunks_in_queue = 3, is_processing = True, last_activity_ms = 100\<rparr>,
      complete_during_wait = False\<rparr>"

definition idle_round :: poll_round where
  "idle_round =
     \<lparr>complete_during_query = False,
      query_result = Some \<lparr>chunks_in_queue = 0, is_processing = False, last_activity_ms = 200\<rparr>,
      complete_during_wait = False\<rparr>"

definition busy_env :: stop_env where
  "busy_env =
     \<lparr>rounds = (\<lambda>i. busy_round),
      events_before_flush = [Arrival 1000 (segment 2 1), Arrival 1001 (segment 1 0)],
      flush_now = 70000,
      events_after_flush = [],
      save_result = SaveReturned (Some ''meeting-1'')\<rparr>"

definition idle_env :: stop_env where
  "idle_env = busy_env\<lparr>rounds := (\<lambda>i. idle_round)\<rparr>"

definition mounted_page :: page where
  "mounted_page =
     \<lparr>reconciler_state = initial_reconciler, finalFlushRef = True,
      meetingTitle = ''Standup'',
      last_recording_folder_path = Some ''/recordings/standup'',
      last_recording_meeting_name = Some ''Standup'',
      isRecordingDisabled = False, isProcessingTranscript = False, isStopping = True,
      isSavingTranscript = False, isMeetingActive = True\<rparr>"

section \<open>Properties of the reconciler\<close>

subsection \<open>Sorting and merging\<close>

lemma compare_le: "compareTranscripts a b \<le> 0 \<longleftrightarrow> transcript_le a b"
  by (auto simp: compareTranscripts_def transcript_le_def Let_def)

lemma transcript_le_total: "\<not> transcript_le a b \<Longrightarrow> transcript_le b a"
  by (auto simp: transcript_le_def)

lemma transcript_le_trans: "transcript_le a b \<Longrightarrow> transcript_le b c \<Longrightarrow> transcript_le a c"
  by (auto simp: transcript_le_def)

lemma mset_insert_sorted: "mset (insert_sorted cmp x xs) = add_mset x (mset xs)"
  by (induction xs) auto

lemma mset_array_sort: "mset (array_sort cmp xs) = mset xs"
  by (induction xs) (auto simp: array_sort_def mset_insert_sorted)

lemma set_array_sort: "set (array_sort cmp xs) = set xs"
  using mset_array_sort [of cmp xs] by (metis set_mset_mset)

lemma set_insert_sorted: "set (insert_sorted cmp x xs) = insert x (set xs)"
  using mset_insert_sorted [of cmp x xs] by (metis set_mset_mset set_mset_add_mset_insert)

lemma sorted_insert_sorted:
  "sorted_wrt transcript_le xs \<Longrightarrow> sorted_wrt transcript_le (insert_sorted compareTranscripts x xs)"
proof (induction xs)
  case Nil
  then show ?case by simp
next
  case (Cons y ys)
  show ?case
  proof (cases "transcript_le x y")
    case True
    have "\<forall>z\<in>set ys. transcript_le x z"
      using Cons.prems True transcript_le_trans by auto
    with True Cons.prems show ?thesis by (simp add: compare_le)
  next
    case False
    then have yx: "transcript_le y x" by (rule transcript_le_total)
    have "sorted_wrt transcript_le (insert_sorted compareTranscripts x ys)"
      using Cons by simp
    with False yx Cons.prems show ?thesis
      by (auto simp: compare_le set_insert_sorted)
  qed
qed

lemma sorted_array_sort: "sorted_wrt transcript_le (array_sort compareTranscripts xs)"
proof (induction xs)
  case Nil
  show ?case by (simp add: array_sort_def)
next
  case (Cons x xs)
  then show ?case using sorted_insert_sorted [of "array_sort compareTranscripts xs" x]
    by (simp add: array_sort_def)
qed

lemma sorted_merge_transcripts:
  "sorted_wrt transcript_le prev \<Longrightarrow> sorted_wrt transcript_le (merge_transcripts new prev)"
  by (simp add: merge_transcripts_def Let_def sorted_array_sort)

lemma mset_merge_transcripts:
  "mset (merge_transcripts new prev) =
     mset prev + mset (filter (\<lambda>t. sequence_id t \<noteq> None \<and> sequence_id t \<notin> set (map sequence_id prev)) new)"
proof -
  have eq: "set (filter (\<lambda>i. i \<noteq> None) (map sequence_id prev)) = set (map sequence_id prev) - {None}"
    by auto
  have f: "filter (\<lambda>t. sequence_id t \<noteq> None \<and> sequence_id t \<notin> set (filter (\<lambda>i. i \<noteq> None) (map sequence_id prev))) new
        = filter (\<lambda>t. sequence_id t \<noteq> None \<and> sequence_id t \<notin> set (map sequence_id prev)) new"
    unfolding eq by (rule filter_cong) auto
  let ?u = "filter (\<lambda>t. sequence_id t \<noteq> None \<and> sequence_id t \<notin> set (map sequence_id prev)) new"
  have m: "merge_transcripts new prev =
             (if ?u = [] then prev else array_sort compareTranscripts (prev @ ?u))"
    unfolding merge_transcripts_def Let_def f ..
  show ?thesis
  proof (cases "?u = []")
    case True
    then show ?thesis unfolding m by simp
  next
    case False
    then show ?thesis unfolding m by (simp add: mset_array_sort)
  qed
qed

lemma ids_merge_transcripts:
  assumes "distinct (map sequence_id prev)" "None \<notin> set (map sequence_id prev)"
    and "distinct (map sequence_id new)" "None \<notin> set (map sequence_id new)"
  shows "distinct (map sequence_id (merge_transcripts new prev))"
    and "None \<notin> set (map sequence_id (merge_transcripts new prev))"
    and "set (map sequence_id (merge_transcripts new prev))
           = set (map sequence_id prev) \<union> set (map sequence_id new)"
proof -
  define u where "u = filter (\<lambda>t. sequence_id t \<noteq> None \<and> sequence_id t \<notin> set (map sequence_id prev)) new"
  have "mset (merge_transcripts new prev) = mset (prev @ u)"
    unfolding u_def by (simp add: mset_merge_transcripts)
  then have "mset (map sequence_id (merge_transcripts new prev)) = mset (map sequence_id (prev @ u))"
    by (simp only: mset_map)
  then have m: "mset (map sequence_id (merge_transcripts new prev))
                  = mset (map sequence_id prev @ map sequence_id u)"
    by simp
  have du: "distinct (map sequence_id u)"
    unfolding u_def using assms(3) by (rule distinct_map_filter)
  have dj: "set (map sequence_id prev) \<inter> set (map sequence_id u) = {}"
    unfolding u_def by (auto simp: image_iff)
  have d: "distinct (map sequence_id prev @ map sequence_id u)"
    using assms(1) du dj by simp
  show "distinct (map sequence_id (merge_transcripts new prev))"
    using mset_eq_imp_distinct_iff [OF m] d by simp
  have s: "set (map sequence_id (merge_transcripts new prev))
             = set (map sequence_id prev) \<union> set (map sequence_id u)"
    using mset_eq_setD [OF m] by simp
  have u2: "u = filter (\<lambda>t. sequence_id t \<notin> set (map sequence_id prev)) new"
    unfolding u_def using assms(4) by (intro filter_cong) (auto simp: image_iff, metis option.exhaust)
  have su: "set (map sequence_id u) = set (map sequence_id new) - set (map sequence_id prev)"
    unfolding u2 by auto
  show "None \<notin> set (map sequence_id (merge_transcripts new prev))"
    unfolding s su using assms(2,4) by blast
  show "set (map sequence_id (merge_transcripts new prev))
           = set (map sequence_id prev) \<union> set (map sequence_id new)"
    unfolding s su by blast
qed

lemma mset_delete:
  "distinct (map fst buf) \<Longrightarrow> map_of buf k = Some t
     \<Longrightarrow> mset buf = add_mset (k, t) (mset (AList.delete k buf))"
proof (induction buf)
  case Nil
  then show ?case by simp
next
  case (Cons p ps)
  obtain k' t' where p: "p = (k', t')" by (cases p)
  show ?case
  proof (cases "k' = k")
    case True
    with Cons.prems p have t: "t' = t" and notin: "k \<notin> fst ` set ps" by auto
    have "AList.delete k ps = ps"
      using notin by (simp add: AList.delete_id)
    with True p t show ?thesis by simp
  next
    case False
    with Cons p show ?thesis by simp
  qed
qed

lemma sequential_drain_entries:
  "distinct (map fst buf) \<Longrightarrow> sequential_drain buf l acc = (buf', l', acc')
     \<Longrightarrow> \<exists>ds. acc' = acc @ map snd ds \<and> mset buf = mset ds + mset buf'
              \<and> map fst ds = [l + 1..l'] \<and> l \<le> l'"
proof (induction buf l acc rule: sequential_drain.induct)
  case (1 buf l acc)
  show ?case
  proof (cases "map_of buf (l + 1)")
    case None
    with "1.prems"(2) have "buf' = buf" "l' = l" "acc' = acc"
      by (simp_all add: sequential_drain.simps [of buf l acc])
    then show ?thesis by (intro exI [of _ "[]"]) simp
  next
    case (Some t)
    with "1.prems"(2)
    have rec: "sequential_drain (AList.delete (l + 1) buf) (l + 1) (acc @ [t]) = (buf', l', acc')"
      by (simp add: sequential_drain.simps [of buf l acc])
    have d: "distinct (map fst (AList.delete (l + 1) buf))"
      using "1.prems"(1) by (rule distinct_delete)
    from "1.IH" [OF Some d rec] obtain ds where
      ds: "acc' = (acc @ [t]) @ map snd ds" "mset (AList.delete (l + 1) buf) = mset ds + mset buf'"
        "map fst ds = [l + 1 + 1..l']" "l + 1 \<le> l'"
      by blast
    have m: "mset buf = add_mset (l + 1, t) (mset (AList.delete (l + 1) buf))"
      using "1.prems"(1) Some by (rule mset_delete)
    have up: "[l + 1..l'] = (l + 1) # [l + 1 + 1..l']"
      using ds(4) by (simp add: upto_rec1)
    show ?thesis
      using ds m up by (intro exI [of _ "(l + 1, t) # ds"]) simp
  qed
qed

lemma drain_remaining_force:
  "drain_remaining True now buf = ([], [], map snd buf, [])"
  by (induction buf) auto

lemma drain_remaining_timed:
  "drain_remaining False now buf =
     (map snd (filter (\<lambda>p. transcriptAge now (snd p) > staleThreshold) buf),
      map snd (filter (\<lambda>p. \<not> transcriptAge now (snd p) > staleThreshold
                          \<and> transcriptAge now (snd p) \<ge> recentThreshold) buf),
      [],
      filter (\<lambda>p. \<not> transcriptAge now (snd p) > staleThreshold
                  \<and> \<not> transcriptAge now (snd p) \<ge> recentThreshold) buf)"
  by (induction buf) auto

lemma mset_filter3:
  "mset (filter P xs) + mset (filter (\<lambda>x. \<not> P x \<and> Q x) xs)
     + mset (filter (\<lambda>x. \<not> P x \<and> \<not> Q x) xs) = mset xs"
  by (induction xs) auto

lemma drain_remaining_mset:
  assumes "drain_remaining f now buf = (st, rc, fc, kept)"
  shows "mset rc + mset st + mset fc + mset (map snd kept) = mset (map snd buf)"
    and "set kept \<subseteq> set buf" and "distinct (map fst buf) \<Longrightarrow> distinct (map fst kept)"
    and "f \<Longrightarrow> kept = []"
    and "\<forall>p\<in>set kept. transcriptAge now (snd p) < 0"
proof -
  show "mset rc + mset st + mset fc + mset (map snd kept) = mset (map snd buf)"
  proof (cases f)
    case True
    with assms show ?thesis by (simp add: drain_remaining_force)
  next
    case False
    with assms have
      st: "st = map snd (filter (\<lambda>p. transcriptAge now (snd p) > staleThreshold) buf)" and
      rc: "rc = map snd (filter (\<lambda>p. \<not> transcriptAge now (snd p) > staleThreshold
                          \<and> transcriptAge now (snd p) \<ge> recentThreshold) buf)" and
      fc: "fc = []" and
      kept: "kept = filter (\<lambda>p. \<not> transcriptAge now (snd p) > staleThreshold
                  \<and> \<not> transcriptAge now (snd p) \<ge> recentThreshold) buf"
      by (simp_all add: drain_remaining_timed)
    have "mset st + mset rc + mset (map snd kept) = mset (map snd buf)"
      unfolding st rc kept mset_map
      using mset_filter3 [of "\<lambda>p. transcriptAge now (snd p) > staleThreshold" buf
                             "\<lambda>p. transcriptAge now (snd p) \<ge> recentThreshold"]
      by (metis image_mset_union)
    then show ?thesis using fc by (simp add: ac_simps)
  qed
  show "set kept \<subseteq> set buf"
    using assms by (cases f) (auto simp: drain_remaining_force drain_remaining_timed)
  show "distinct (map fst buf) \<Longrightarrow> distinct (map fst kept)"
    using assms by (cases f) (auto simp: drain_remaining_force drain_remaining_timed distinct_map_filter)
  show "f \<Longrightarrow> kept = []"
    using assms by (simp add: drain_remaining_force)
  show "\<forall>p\<in>set kept. transcriptAge now (snd p) < 0"
    using assms by (cases f) (auto simp: drain_remaining_force drain_remaining_timed recentThreshold_def)
qed

lemma merge_transcripts_Nil: "merge_transcripts [] prev = prev"
  by (simp add: merge_transcripts_def)

lemma pass_shape:
  assumes ok: "buffer_ok (transcriptBuffer s)"
  obtains allNew kept l1 where
    "processBufferedTranscripts f now s =
       s\<lparr>transcriptBuffer := kept, lastProcessedSequence := l1,
         transcripts := merge_transcripts allNew (transcripts s)\<rparr>"
    "mset allNew + mset (map snd kept) = mset (map snd (transcriptBuffer s))"
    "buffer_ok kept"
    "lastProcessedSequence s \<le> l1"
    "\<forall>k. lastProcessedSequence s < k \<and> k \<le> l1 \<longrightarrow> Some k \<in> set (map sequence_id allNew)"
    "f \<Longrightarrow> kept = []"
    "\<forall>p\<in>set kept. transcriptAge now (snd p) < 0"
proof -
  obtain buf1 l1 sq where
    sd: "sequential_drain (transcriptBuffer s) (lastProcessedSequence s) [] = (buf1, l1, sq)"
    by (cases "sequential_drain (transcriptBuffer s) (lastProcessedSequence s) []") auto
  obtain st rc fc kept where dr: "drain_remaining f now buf1 = (st, rc, fc, kept)"
    by (cases "drain_remaining f now buf1") auto
  define allNew where
    "allNew = sq @ sortTranscripts rc @ sortTranscripts st @ sortTranscripts fc"
  have d0: "distinct (map fst (transcriptBuffer s))"
    using ok by (simp add: buffer_ok_def)
  from sequential_drain_entries [OF d0 sd] obtain ds where
    ds: "sq = map snd ds" "mset (transcriptBuffer s) = mset ds + mset buf1"
      "map fst ds = [lastProcessedSequence s + 1..l1]" "lastProcessedSequence s \<le> l1"
    by auto
  have eq: "processBufferedTranscripts f now s =
       s\<lparr>transcriptBuffer := kept, lastProcessedSequence := l1,
         transcripts := merge_transcripts allNew (transcripts s)\<rparr>"
  proof -
    have i: "(if allNew \<noteq> [] then merge_transcripts allNew (transcripts s) else transcripts s)
               = merge_transcripts allNew (transcripts s)"
      by (simp add: merge_transcripts_Nil)
    have "processBufferedTranscripts f now s =
       s\<lparr>transcriptBuffer := kept, lastProcessedSequence := l1,
         transcripts := (if allNew \<noteq> [] then merge_transcripts allNew (transcripts s)
                         else transcripts s)\<rparr>"
      unfolding allNew_def by (simp add: processBufferedTranscripts_def sd dr Let_def)
    then show ?thesis by (simp only: i)
  qed
  have mk: "mset (map fst (transcriptBuffer s)) = mset (map fst ds) + mset (map fst buf1)"
    using ds(2) by (metis mset_map image_mset_union)
  have d1: "distinct (map fst buf1)"
  proof -
    have "mset (map fst (transcriptBuffer s)) = mset (map fst ds @ map fst buf1)"
      using mk by simp
    from mset_eq_imp_distinct_iff [OF this] d0 show ?thesis by simp
  qed
  have sub1: "set buf1 \<subseteq> set (transcriptBuffer s)" and subd: "set ds \<subseteq> set (transcriptBuffer s)"
  proof -
    have "mset (transcriptBuffer s) = mset (ds @ buf1)" using ds(2) by simp
    from mset_eq_setD [OF this] show "set buf1 \<subseteq> set (transcriptBuffer s)"
      and "set ds \<subseteq> set (transcriptBuffer s)" by auto
  qed
  note dm = drain_remaining_mset [OF dr]
  have m: "mset allNew + mset (map snd kept) = mset (map snd (transcriptBuffer s))"
  proof -
    have "mset allNew + mset (map snd kept)
            = mset (map snd ds) + (mset rc + mset st + mset fc + mset (map snd kept))"
      by (simp add: allNew_def ds(1) sortTranscripts_def mset_array_sort)
    also have "\<dots> = mset (map snd ds) + mset (map snd buf1)"
      by (simp only: dm(1))
    also have "\<dots> = mset (map snd (transcriptBuffer s))"
      using ds(2) by (metis mset_map image_mset_union)
    finally show ?thesis .
  qed
  have okk: "buffer_ok kept"
    using ok dm(2) dm(3) [OF d1] sub1 by (auto simp: buffer_ok_def)
  have cover: "\<forall>k. lastProcessedSequence s < k \<and> k \<le> l1 \<longrightarrow> Some k \<in> set (map sequence_id allNew)"
  proof (intro allI impI)
    fix k assume k: "lastProcessedSequence s < k \<and> k \<le> l1"
    then have "k \<in> set (map fst ds)" unfolding ds(3) by simp
    then obtain p where p: "p \<in> set ds" "fst p = k" by auto
    with subd ok have "sequence_id (snd p) = Some k" by (auto simp: buffer_ok_def)
    moreover have "snd p \<in> set allNew" using p(1) by (simp add: allNew_def ds(1))
    ultimately show "Some k \<in> set (map sequence_id allNew)" by force
  qed
  show thesis
    using that [OF eq m okk ds(4) cover dm(4) dm(5)] by blast
qed

lemma update_fresh:
  "k \<notin> fst ` set al \<Longrightarrow> AList.update k v al = al @ [(k, v)]"
  by (induction al) auto

lemma buffer_has_iff: "buffer_has buf k \<longleftrightarrow> k \<in> fst ` set buf"
  by (simp add: buffer_has_def map_of_eq_None_iff)

lemma inv_initial: "reconciler_inv initial_reconciler"
  by (simp add: reconciler_inv_def initial_reconciler_def buffer_ok_def)

lemma inv_arrival:
  assumes "reconciler_inv s"
  shows "reconciler_inv (on_transcript_update now payload s)"
proof (cases "buffer_has (transcriptBuffer s) (u_sequence_id payload)")
  case True
  then show ?thesis using assms by (simp add: on_transcript_update_def)
next
  case False
  then have fresh: "u_sequence_id payload \<notin> fst ` set (transcriptBuffer s)"
    by (simp add: buffer_has_iff)
  show ?thesis
    using assms False fresh
    by (auto simp: on_transcript_update_def Let_def reconciler_inv_def buffer_ok_def
        update_fresh [OF fresh] image_iff)
qed

lemma distinct_map_Some: "distinct xs \<Longrightarrow> distinct (map Some xs)"
  by (induction xs) auto

lemma buffer_ok_ids: "buffer_ok buf \<Longrightarrow> map sequence_id (map snd buf) = map Some (map fst buf)"
  by (simp add: buffer_ok_def)

lemma new_ids_from_buffer:
  assumes ok: "buffer_ok buf" and okk: "buffer_ok kept" and m: "mset allNew + mset (map snd kept) = mset (map snd buf)"
  shows "distinct (map sequence_id allNew)" and "None \<notin> set (map sequence_id allNew)"
    and "set (map sequence_id allNew) \<union> Some ` fst ` set kept = Some ` fst ` set buf"
proof -
  have ids: "map sequence_id (map snd buf) = map Some (map fst buf)"
    using ok by (rule buffer_ok_ids)
  have d: "distinct (map sequence_id (map snd buf))"
  proof -
    have "distinct (map fst buf)" using ok by (simp add: buffer_ok_def)
    then have "distinct (map Some (map fst buf))"
      by (rule distinct_map_Some)
    then show ?thesis unfolding ids .
  qed
  have "mset (allNew @ map snd kept) = mset (map snd buf)" using m by simp
  then have mm: "mset (map sequence_id (allNew @ map snd kept)) = mset (map sequence_id (map snd buf))"
    by (metis mset_map)
  from mset_eq_imp_distinct_iff [OF mm] d
  have dd: "distinct (map sequence_id (allNew @ map snd kept))" by simp
  then show "distinct (map sequence_id allNew)" by simp
  have ss: "set (map sequence_id (allNew @ map snd kept)) = set (map sequence_id (map snd buf))"
    using mset_eq_setD [OF mm] .
  have sb: "set (map sequence_id (map snd buf)) = Some ` fst ` set buf"
    unfolding ids by (simp add: image_image)
  show "None \<notin> set (map sequence_id allNew)"
    using ss sb by auto
  show "set (map sequence_id allNew) \<union> Some ` fst ` set kept = Some ` fst ` set buf"
  proof -
    have "set (map sequence_id allNew) \<union> set (map sequence_id (map snd kept)) = Some ` fst ` set buf"
      using ss sb by simp
    moreover have "set (map sequence_id (map snd kept)) = Some ` fst ` set kept"
      unfolding buffer_ok_ids [OF okk] by (simp add: image_image)
    ultimately show ?thesis by simp
  qed
qed

lemma inv_pass:
  assumes inv: "reconciler_inv s"
  shows "reconciler_inv (processBufferedTranscripts f now s)"
proof -
  have ok: "buffer_ok (transcriptBuffer s)" using inv by (simp add: reconciler_inv_def)
  from pass_shape [OF ok, of f now] obtain allNew kept l1 where
    eq: "processBufferedTranscripts f now s =
       s\<lparr>transcriptBuffer := kept, lastProcessedSequence := l1,
         transcripts := merge_transcripts allNew (transcripts s)\<rparr>" and
    m: "mset allNew + mset (map snd kept) = mset (map snd (transcriptBuffer s))" and
    okk: "buffer_ok kept" and
    le: "lastProcessedSequence s \<le> l1" and
    cover: "\<forall>k. lastProcessedSequence s < k \<and> k \<le> l1 \<longrightarrow> Some k \<in> set (map sequence_id allNew)"
    by metis
  note n = new_ids_from_buffer [OF ok okk m]
  have d: "distinct (map sequence_id (transcripts s))"
    and nn: "None \<notin> set (map sequence_id (transcripts s))"
    and srt: "sorted_wrt transcript_le (transcripts s)"
    and low: "\<forall>k. 0 < k \<and> k \<le> lastProcessedSequence s
             \<longrightarrow> Some k \<in> set (map sequence_id (transcripts s))"
    using inv by (simp_all add: reconciler_inv_def)
  note i = ids_merge_transcripts [OF d nn n(1) n(2)]
  have "\<forall>k. 0 < k \<and> k \<le> l1
          \<longrightarrow> Some k \<in> set (map sequence_id (merge_transcripts allNew (transcripts s)))"
  proof (intro allI impI)
    fix k assume k: "0 < k \<and> k \<le> l1"
    show "Some k \<in> set (map sequence_id (merge_transcripts allNew (transcripts s)))"
    proof (cases "k \<le> lastProcessedSequence s")
      case True
      with k low show ?thesis unfolding i(3) by blast
    next
      case False
      with k cover show ?thesis unfolding i(3) by auto
    qed
  qed
  then show ?thesis
    unfolding eq reconciler_inv_def
    using okk i(1) i(2) sorted_merge_transcripts [OF srt, of allNew] by simp
qed

lemma inv_step: "reconciler_inv s \<Longrightarrow> reconciler_inv (step s e)"
proof (cases e)
  case (Arrival now payload)
  assume "reconciler_inv s"
  then show ?thesis unfolding Arrival by (simp add: inv_arrival)
next
  case (TimerFired now)
  assume i: "reconciler_inv s"
  then have "reconciler_inv (s\<lparr>processingTimer := False\<rparr>)"
    by (simp add: reconciler_inv_def)
  then show ?thesis unfolding TimerFired using i by (simp add: inv_pass)
next
  case (FinalFlush now)
  assume "reconciler_inv s"
  then show ?thesis unfolding FinalFlush by (simp add: inv_pass)
qed

lemma inv_foldl: "reconciler_inv s \<Longrightarrow> reconciler_inv (foldl step s es)"
  by (induction es arbitrary: s) (simp_all add: inv_step)

lemma inv_run: "reconciler_inv (run es)"
  unfolding run_def by (rule inv_foldl [OF inv_initial])

subsection \<open>Passes and runs\<close>

lemma pass_on_empty_buffer:
  "transcriptBuffer s = [] \<Longrightarrow> processBufferedTranscripts f now s = s"
  by (simp add: processBufferedTranscripts_def sequential_drain.simps [of "[]"]
      sortTranscripts_def array_sort_def)

lemma forced_pass_empties_buffer:
  "transcriptBuffer (processBufferedTranscripts True now s) = []"
  by (simp add: processBufferedTranscripts_def drain_remaining_force Let_def split: prod.splits)

lemma sequential_drain_subset:
  "sequential_drain buf l acc = (buf', l', acc') \<Longrightarrow> set buf' \<subseteq> set buf"
proof (induction buf l acc rule: sequential_drain.induct)
  case (1 buf l acc)
  show ?case
  proof (cases "map_of buf (l + 1)")
    case None
    with "1.prems" show ?thesis by (simp add: sequential_drain.simps [of buf l acc])
  next
    case (Some t)
    with "1.prems"
    have "sequential_drain (AList.delete (l + 1) buf) (l + 1) (acc @ [t]) = (buf', l', acc')"
      by (simp add: sequential_drain.simps [of buf l acc])
    from "1.IH" [OF Some this] have "set buf' \<subseteq> set (AList.delete (l + 1) buf)" .
    then show ?thesis by (auto simp: AList.delete_eq)
  qed
qed

lemma pass_keeps_only_negative_age:
  "set (transcriptBuffer (processBufferedTranscripts f now s))
     \<subseteq> {p \<in> set (transcriptBuffer s). \<not> f \<and> transcriptAge now (snd p) < 0}"
proof -
  obtain buf1 l1 sq where
    sd: "sequential_drain (transcriptBuffer s) (lastProcessedSequence s) [] = (buf1, l1, sq)"
    by (cases "sequential_drain (transcriptBuffer s) (lastProcessedSequence s) []") auto
  obtain st rc fc kept where dr: "drain_remaining f now buf1 = (st, rc, fc, kept)"
    by (cases "drain_remaining f now buf1") auto
  have b: "transcriptBuffer (processBufferedTranscripts f now s) = kept"
    by (simp add: processBufferedTranscripts_def sd dr Let_def)
  note dm = drain_remaining_mset [OF dr]
  show ?thesis
    unfolding b using dm(2) dm(4) dm(5) sequential_drain_subset [OF sd] by auto
qed

lemma output_grows_pass:
  "buffer_ok (transcriptBuffer s) \<Longrightarrow>
     mset (transcripts s) \<subseteq># mset (transcripts (processBufferedTranscripts f now s))
     \<and> lastProcessedSequence s \<le> lastProcessedSequence (processBufferedTranscripts f now s)"
proof -
  assume ok: "buffer_ok (transcriptBuffer s)"
  from pass_shape [OF ok, of f now] obtain allNew kept l1 where
    eq: "processBufferedTranscripts f now s =
       s\<lparr>transcriptBuffer := kept, lastProcessedSequence := l1,
         transcripts := merge_transcripts allNew (transcripts s)\<rparr>" and
    le: "lastProcessedSequence s \<le> l1"
    by metis
  show ?thesis unfolding eq using le by (simp add: mset_merge_transcripts)
qed

lemma output_grows_step:
  "reconciler_inv s \<Longrightarrow>
     mset (transcripts s) \<subseteq># mset (transcripts (step s e))
     \<and> lastProcessedSequence s \<le> lastProcessedSequence (step s e)"
proof (cases e)
  case (Arrival now payload)
  show ?thesis unfolding Arrival by (simp add: on_transcript_update_def Let_def)
next
  case (TimerFired now)
  assume "reconciler_inv s"
  then have "buffer_ok (transcriptBuffer (s\<lparr>processingTimer := False\<rparr>))"
    by (simp add: reconciler_inv_def)
  from output_grows_pass [OF this, of False now]
  show ?thesis unfolding TimerFired by simp
next
  case (FinalFlush now)
  assume "reconciler_inv s"
  then have "buffer_ok (transcriptBuffer s)"
    by (simp add: reconciler_inv_def)
  from output_grows_pass [OF this, of True now]
  show ?thesis unfolding FinalFlush by simp
qed

lemma output_grows_foldl:
  "reconciler_inv s \<Longrightarrow>
     mset (transcripts s) \<subseteq># mset (transcripts (foldl step s es))
     \<and> lastProcessedSequence s \<le> lastProcessedSequence (foldl step s es)"
proof (induction es arbitrary: s)
  case Nil
  show ?case by simp
next
  case (Cons e es)
  from Cons.IH [OF inv_step [OF Cons.prems, of e]] output_grows_step [OF Cons.prems, of e]
  show ?case by (auto intro: subset_mset.order_trans)
qed

lemma run_append: "run (es @ es') = foldl step (run es) es'"
  by (simp add: run_def)

lemma ids_pass:
  assumes inv: "reconciler_inv s"
  shows "set (map sequence_id (transcripts (processBufferedTranscripts f now s)))
           \<union> Some ` fst ` set (transcriptBuffer (processBufferedTranscripts f now s))
         = set (map sequence_id (transcripts s)) \<union> Some ` fst ` set (transcriptBuffer s)"
proof -
  have ok: "buffer_ok (transcriptBuffer s)" using inv by (simp add: reconciler_inv_def)
  from pass_shape [OF ok, of f now] obtain allNew kept l1 where
    eq: "processBufferedTranscripts f now s =
       s\<lparr>transcriptBuffer := kept, lastProcessedSequence := l1,
         transcripts := merge_transcripts allNew (transcripts s)\<rparr>" and
    m: "mset allNew + mset (map snd kept) = mset (map snd (transcriptBuffer s))" and
    okk: "buffer_ok kept"
    by metis
  note n = new_ids_from_buffer [OF ok okk m]
  have d: "distinct (map sequence_id (transcripts s))"
    and nn: "None \<notin> set (map sequence_id (transcripts s))"
    using inv by (simp_all add: reconciler_inv_def)
  note i = ids_merge_transcripts [OF d nn n(1) n(2)]
  show ?thesis unfolding eq using i(3) n(3) by (simp add: Un_assoc)
qed

lemma ids_step:
  assumes inv: "reconciler_inv s"
  shows "set (map sequence_id (transcripts (step s e)))
           \<union> Some ` fst ` set (transcriptBuffer (step s e))
         = set (map sequence_id (transcripts s)) \<union> Some ` fst ` set (transcriptBuffer s)
           \<union> Some ` set (arrived [e])"
proof (cases e)
  case (Arrival now payload)
  show ?thesis
  proof (cases "buffer_has (transcriptBuffer s) (u_sequence_id payload)")
    case True
    then show ?thesis unfolding Arrival
      by (auto simp: on_transcript_update_def buffer_has_iff)
  next
    case False
    then have fresh: "u_sequence_id payload \<notin> fst ` set (transcriptBuffer s)"
      by (simp add: buffer_has_iff)
    show ?thesis unfolding Arrival using False
      by (auto simp: on_transcript_update_def Let_def update_fresh [OF fresh])
  qed
next
  case (TimerFired now)
  have "reconciler_inv (s\<lparr>processingTimer := False\<rparr>)"
    using inv by (simp add: reconciler_inv_def)
  from ids_pass [OF this, of False now]
  show ?thesis unfolding TimerFired by simp
next
  case (FinalFlush now)
  from ids_pass [OF inv, of True now]
  show ?thesis unfolding FinalFlush by simp
qed

lemma arrived_append: "arrived (es @ es') = arrived es @ arrived es'"
  by (induction es rule: arrived.induct) auto

lemma ids_run:
  "set (map sequence_id (transcripts (run es))) \<union> Some ` fst ` set (transcriptBuffer (run es))
     = Some ` set (arrived es)"
proof (induction es rule: rev_induct)
  case Nil
  show ?case by (simp add: run_def initial_reconciler_def)
next
  case (snoc e es)
  have r: "run (es @ [e]) = step (run es) e" by (simp add: run_def)
  have "set (map sequence_id (transcripts (run (es @ [e]))))
          \<union> Some ` fst ` set (transcriptBuffer (run (es @ [e])))
        = (set (map sequence_id (transcripts (run es))) \<union> Some ` fst ` set (transcriptBuffer (run es)))
           \<union> Some ` set (arrived [e])"
    unfolding r by (rule ids_step [OF inv_run])
  also have "\<dots> = Some ` set (arrived es) \<union> Some ` set (arrived [e])"
    by (simp only: snoc)
  also have "\<dots> = Some ` set (arrived (es @ [e]))"
    by (simp add: arrived_append image_Un)
  finally show ?case .
qed

subsection \<open>The model on concrete inputs\<close>

lemmas eval_defs = run_def segment_def on_transcript_update_def initial_reconciler_def
  buffer_has_def processBufferedTranscripts_def sequential_drain.simps [of "[]"]
  sequential_drain.simps [of "_ # _"] transcriptAge_def staleThreshold_def recentThreshold_def
  Let_def sortTranscripts_def array_sort_def merge_transcripts_def compareTranscripts_def or0_def

text \<open>
  Segments 1, 2, 3 in order are emitted by one pass, which leaves the watermark at 3. With
  3 missing, a pass emits 1, 2 and 4 and leaves the watermark at 2; when 3 arrives late,
  the output is again in order.
\<close>

lemma in_order_single_pass:
  "lastProcessedSequence
     (run [Arrival 1000 (segment 1 0), Arrival 1001 (segment 2 1), Arrival 1002 (segment 3 2),
           TimerFired 1012]) = 3
   \<and> map sequence_id (transcripts
        (run [Arrival 1000 (segment 1 0), Arrival 1001 (segment 2 1), Arrival 1002 (segment 3 2),
              TimerFired 1012])) = [Some 1, Some 2, Some 3]
   \<and> transcriptBuffer
        (run [Arrival 1000 (segment 1 0), Arrival 1001 (segment 2 1), Arrival 1002 (segment 3 2),
              TimerFired 1012]) = []"
  by (simp add: eval_defs)

lemma gap_then_late_segment:
  "map sequence_id (transcripts
     (run [Arrival 1000 (segment 1 0), Arrival 1001 (segment 2 1), Arrival 1002 (segment 4 3),
           TimerFired 1012])) = [Some 1, Some 2, Some 4]
   \<and> lastProcessedSequence
     (run [Arrival 1000 (segment 1 0), Arrival 1001 (segment 2 1), Arrival 1002 (segment 4 3),
           TimerFired 1012]) = 2
   \<and> map sequence_id (transcripts
     (run [Arrival 1000 (segment 1 0), Arrival 1001 (segment 2 1), Arrival 1002 (segment 4 3),
           TimerFired 1012, Arrival 1500 (segment 3 2), TimerFired 1510]))
       = [Some 1, Some 2, Some 3, Some 4]"
  by (simp add: eval_defs)

lemma clock_back_run:
  "run [Arrival 1000 (segment 2 0), TimerFired 990] =
     \<lparr>transcriptCounter = 1,
      transcriptBuffer =
        [(2, \<lparr>t_id = (1000, 0), t_text = ''hello'', t_timestamp = ''00:00:01'',
               sequence_id = Some 2, chunk_start_time = Some 0, is_partial = False,
               confidence = 1, audio_start_time = 0, audio_end_time = 1, duration = 1\<rparr>)],
      lastProcessedSequence = 0, processingTimer = False, transcripts = []\<rparr>"
  by (simp add: eval_defs)



lemma filter_unique:
  "distinct (map f ys) \<Longrightarrow> x \<in> set ys \<Longrightarrow> filter (\<lambda>t. f t = f x) ys = [x]"
proof (induction ys)
  case Nil
  then show ?case by simp
next
  case (Cons y ys)
  show ?case
  proof (cases "y = x")
    case True
    have "f x \<notin> f ` set ys" using Cons.prems(1) True by simp
    then have "\<forall>t\<in>set ys. f t \<noteq> f x" by (metis imageI)
    then have "filter (\<lambda>t. f t = f x) ys = []"
      by (simp add: filter_empty_conv)
    with True show ?thesis by simp
  next
    case False
    with Cons.prems have x: "x \<in> set ys" by simp
    then have "f y \<noteq> f x" using Cons.prems(1) by auto
    with Cons.IH x Cons.prems(1) show ?thesis by simp
  qed
qed

lemma redelivered_pass_run:
  "run [Arrival 1000 (segment 1 0), TimerFired 1010, Arrival 1020 (segment 1 7),
        TimerFired 1030] =
     \<lparr>transcriptCounter = 2, transcriptBuffer = [],
      lastProcessedSequence = 1, processingTimer = False,
      transcripts =
        [\<lparr>t_id = (1000, 0), t_text = ''hello'', t_timestamp = ''00:00:01'',
               sequence_id = Some 1, chunk_start_time = Some 0, is_partial = False,
               confidence = 1, audio_start_time = 0, audio_end_time = 1, duration = 1\<rparr>]\<rparr>"
  by (simp add: eval_defs)

lemma first_pass_run:
  "run [Arrival 1000 (segment 1 0), TimerFired 1010] =
     \<lparr>transcriptCounter = 1, transcriptBuffer = [],
      lastProcessedSequence = 1, processingTimer = False,
      transcripts =
        [\<lparr>t_id = (1000, 0), t_text = ''hello'', t_timestamp = ''00:00:01'',
               sequence_id = Some 1, chunk_start_time = Some 0, is_partial = False,
               confidence = 1, audio_start_time = 0, audio_end_time = 1, duration = 1\<rparr>]\<rparr>"
  by (simp add: eval_defs)

text \<open>
  A forced pass leaves the buffer empty, and so does a pass that is not forced when no
  buffered entry carries a clock reading later than the pass's own; every buffered
  sequence number is then in the output.
\<close>

lemma pass_empties_buffer_unless_clock_went_back:
  "transcriptBuffer (processBufferedTranscripts True now s) = []
   \<and> ((\<forall>p\<in>set (transcriptBuffer s). fst (t_id (snd p)) \<le> now)
        \<longrightarrow> transcriptBuffer (processBufferedTranscripts False now s) = [])
   \<and> ((\<forall>p\<in>set (transcriptBuffer (run events)). fst (t_id (snd p)) \<le> now)
        \<longrightarrow> Some ` fst ` set (transcriptBuffer (run events))
              \<subseteq> set (map sequence_id
                    (transcripts (processBufferedTranscripts False now (run events)))))"
proof -
  have e: "transcriptBuffer (processBufferedTranscripts False now s) = []"
    if a: "\<forall>p\<in>set (transcriptBuffer s). fst (t_id (snd p)) \<le> now" for s
  proof -
    have "p \<notin> set (transcriptBuffer (processBufferedTranscripts False now s))" for p
    proof
      assume "p \<in> set (transcriptBuffer (processBufferedTranscripts False now s))"
      with pass_keeps_only_negative_age [of False now s]
      have "p \<in> set (transcriptBuffer s)" and "transcriptAge now (snd p) < 0" by auto
      with a show False by (auto simp: transcriptAge_def)
    qed
    then show ?thesis
      by (cases "transcriptBuffer (processBufferedTranscripts False now s)") auto
  qed
  have "Some ` fst ` set (transcriptBuffer (run events))
              \<subseteq> set (map sequence_id
                    (transcripts (processBufferedTranscripts False now (run events))))"
    if a: "\<forall>p\<in>set (transcriptBuffer (run events)). fst (t_id (snd p)) \<le> now"
    using ids_pass [OF inv_run, of False now events] e [OF a] by auto
  with e forced_pass_empties_buffer [of now s] show ?thesis by blast
qed

subsection \<open>The page's other writes\<close>























section \<open>Properties of the synchronizer\<close>

lemma sync_keeps_consistency:
  "backend_consistent b \<Longrightarrow> active_consistent (state (syncWithBackend (Some b) s))"
  by (simp add: syncWithBackend_def active_consistent_def backend_consistent_def)

lemma started_consistent: "active_consistent (state (on_recording_started s))"
  by (simp add: on_recording_started_def startPolling_def active_consistent_def)

lemma stopped_consistent: "active_consistent (state (on_recording_stopped s))"
  by (simp add: on_recording_stopped_def stopPolling_def active_consistent_def)

lemma paused_consistent: "active_consistent (state (on_recording_paused s))"
  by (simp add: on_recording_paused_def active_consistent_def)

lemma resumed_consistent_iff:
  "active_consistent (state (on_recording_resumed s)) \<longleftrightarrow> isRecording (state s)"
  by (simp add: on_recording_resumed_def active_consistent_def)

section \<open>Properties of the protocol\<close>

lemma busy_loop:
  assumes busy: "\<forall>i. complete_during_query (rnd i) = False
                    \<and> complete_during_wait (rnd i) = False
                    \<and> (\<exists>st. query_result (rnd i) = Some st \<and> chunks_in_queue st \<noteq> 0)"
  shows "poll_loop rnd i (MAX_WAIT_TIME - POLL_INTERVAL * int n) False acc
           = (MAX_WAIT_TIME, False,
              acc @ concat (replicate n [GetTranscriptionStatus, Sleep POLL_INTERVAL]))"
proof (induction n arbitrary: i acc)
  case 0
  show ?case by (simp add: poll_loop.simps [of rnd i MAX_WAIT_TIME])
next
  case (Suc n)
  from busy obtain st where st: "query_result (rnd i) = Some st" "chunks_in_queue st \<noteq> 0"
    by blast
  have ev: "complete_during_query (rnd i) = False" "complete_during_wait (rnd i) = False"
    using busy by simp_all
  define e where "e = MAX_WAIT_TIME - POLL_INTERVAL * int (Suc n)"
  define e' where "e' = MAX_WAIT_TIME - POLL_INTERVAL * int n"
  have lt: "e < MAX_WAIT_TIME"
    by (simp add: e_def POLL_INTERVAL_def)
  have nx: "e + POLL_INTERVAL = e'"
    by (simp add: e_def e'_def algebra_simps)
  have "poll_loop rnd i e False acc
          = poll_loop rnd (Suc i) e' False (acc @ [GetTranscriptionStatus, Sleep POLL_INTERVAL])"
    by (subst poll_loop.simps) (simp add: lt st ev nx)
  then have "poll_loop rnd i (MAX_WAIT_TIME - POLL_INTERVAL * int (Suc n)) False acc
          = poll_loop rnd (Suc i) (MAX_WAIT_TIME - POLL_INTERVAL * int n) False
              (acc @ [GetTranscriptionStatus, Sleep POLL_INTERVAL])"
    unfolding e_def e'_def .
  then show ?case by (simp add: Suc.IH)
qed

lemma busy_loop_from_start:
  assumes "\<forall>i. complete_during_query (rnd i) = False
                    \<and> complete_during_wait (rnd i) = False
                    \<and> (\<exists>st. query_result (rnd i) = Some st \<and> chunks_in_queue st \<noteq> 0)"
  shows "poll_loop rnd 0 0 False []
           = (60000, False, concat (replicate 120 [GetTranscriptionStatus, Sleep 500]))"
  using busy_loop [OF assms, of 0 120 "[]"]
  by (simp add: MAX_WAIT_TIME_def POLL_INTERVAL_def)

lemma busy_env_busy:
  "\<forall>i. complete_during_query (rounds busy_env i) = False
        \<and> complete_during_wait (rounds busy_env i) = False
        \<and> (\<exists>st. query_result (rounds busy_env i) = Some st \<and> chunks_in_queue st \<noteq> 0)"
  by (simp add: busy_env_def busy_round_def)

lemma first_hit_unfold:
  "(\<exists>k. i \<le> k \<and> k < N \<and> (\<forall>j. i \<le> j \<and> j < k \<longrightarrow> U j) \<and> D k)
     \<longleftrightarrow> (i < N \<and> (D i \<or> (U i \<and>
            (\<exists>k. Suc i \<le> k \<and> k < N \<and> (\<forall>j. Suc i \<le> j \<and> j < k \<longrightarrow> U j) \<and> D k))))"
  (is "?L \<longleftrightarrow> ?R")
proof
  assume ?L
  then obtain k where k: "i \<le> k" "k < N" "\<forall>j. i \<le> j \<and> j < k \<longrightarrow> U j" "D k" by blast
  show ?R
  proof (cases "k = i")
    case True
    with k show ?thesis by simp
  next
    case False
    with k(1) have ik: "Suc i \<le> k" by simp
    then have "U i" using k(3) by simp
    moreover have "\<forall>j. Suc i \<le> j \<and> j < k \<longrightarrow> U j" using k(3) by simp
    ultimately show ?thesis using k ik by auto
  qed
next
  assume R: ?R
  show ?L
  proof (cases "D i")
    case True
    with R show ?thesis by (intro exI [of _ i]) auto
  next
    case False
    with R obtain k where k: "U i" "Suc i \<le> k" "k < N"
      "\<forall>j. Suc i \<le> j \<and> j < k \<longrightarrow> U j" "D k" by blast
    have "\<forall>j. i \<le> j \<and> j < k \<longrightarrow> U j"
    proof (intro allI impI)
      fix j assume "i \<le> j \<and> j < k"
      then show "U j" using k(1) k(4) by (cases "j = i") auto
    qed
    with k show ?thesis by (intro exI [of _ k]) simp
  qed
qed

lemma poll_loop_complete_iff:
  "e = POLL_INTERVAL * int i \<Longrightarrow>
   fst (snd (poll_loop rnd i e False acc))
     \<longleftrightarrow> (\<exists>k. i \<le> k \<and> k < 120
            \<and> (\<forall>j. i \<le> j \<and> j < k \<longrightarrow> uneventful (rnd j)) \<and> declares_completion (rnd k))"
proof (induction "120 - i" arbitrary: i e acc)
  case 0
  then have "\<not> e < MAX_WAIT_TIME"
    by (simp add: MAX_WAIT_TIME_def POLL_INTERVAL_def)
  then have "poll_loop rnd i e False acc = (e, False, acc)"
    by (subst poll_loop.simps) simp
  moreover have "\<not> i < 120" using 0 by simp
  ultimately show ?case by (subst first_hit_unfold) simp
next
  case (Suc n)
  then have i: "i < 120" by simp
  with Suc.prems have lt: "e < MAX_WAIT_TIME"
    by (simp add: MAX_WAIT_TIME_def POLL_INTERVAL_def)
  show ?case
  proof (cases "query_result (rnd i)")
    case None
    then have "poll_loop rnd i e False acc
                 = (e, complete_during_query (rnd i), acc @ [GetTranscriptionStatus])"
      using lt by (subst poll_loop.simps) simp
    moreover have "declares_completion (rnd i) = complete_during_query (rnd i)"
      and "\<not> uneventful (rnd i)"
      using None by (simp_all add: declares_completion_def uneventful_def)
    ultimately show ?thesis using i by (subst first_hit_unfold) simp
  next
    case (Some st)
    show ?thesis
    proof (cases "queue_idle st \<or> queue_quiet st")
      case True
      then have "poll_loop rnd i e False acc = (e, True, acc @ [GetTranscriptionStatus])"
        using lt Some
        by (subst poll_loop.simps) (auto simp: queue_idle_def queue_quiet_def)
      moreover have "declares_completion (rnd i)"
        using Some True by (auto simp: declares_completion_def)
      ultimately show ?thesis using i by (subst first_hit_unfold) simp
    next
      case False
      define c where "c = (complete_during_query (rnd i) \<or> complete_during_wait (rnd i))"
      have step: "poll_loop rnd i e False acc
                    = poll_loop rnd (Suc i) (e + POLL_INTERVAL) c
                        (acc @ [GetTranscriptionStatus, Sleep POLL_INTERVAL])"
        using lt Some False unfolding c_def
        by (subst poll_loop.simps) (auto simp: queue_idle_def queue_quiet_def)
      show ?thesis
      proof (cases c)
        case True
        then have "poll_loop rnd (Suc i) (e + POLL_INTERVAL) c
                        (acc @ [GetTranscriptionStatus, Sleep POLL_INTERVAL])
                   = (e + POLL_INTERVAL, True, acc @ [GetTranscriptionStatus, Sleep POLL_INTERVAL])"
          by (subst poll_loop.simps) simp
        moreover have "declares_completion (rnd i)"
          using True Some unfolding c_def by (auto simp: declares_completion_def)
        ultimately show ?thesis using i step by (subst first_hit_unfold) simp
      next
        case nc: False
        have e': "e + POLL_INTERVAL = POLL_INTERVAL * int (Suc i)"
          using Suc.prems by (simp add: algebra_simps)
        have n: "n = 120 - Suc i" using Suc.hyps(2) by simp
        have u: "uneventful (rnd i)" and nd: "\<not> declares_completion (rnd i)"
          using nc Some False unfolding c_def
          by (auto simp: uneventful_def declares_completion_def)
        from Suc.hyps(1) [OF n e', of "acc @ [GetTranscriptionStatus, Sleep POLL_INTERVAL]"]
        show ?thesis
          using step nc i u nd by (subst first_hit_unfold) simp
      qed
    qed
  qed
qed

lemma run_foldl: "foldl step (run es) es' = run (es @ es')"
  by (simp add: run_def)



lemma flush_always_called:
  assumes "finalFlushRef pg"
  shows "FinalFlushCall \<in> set (calls (handleRecordingStop2 isCallApi env pg))"
proof -
  obtain e c polled where pl: "poll_loop (rounds env) 0 0 False [] = (e, c, polled)"
    by (cases "poll_loop (rounds env) 0 0 False []") auto
  show ?thesis
    using assms
    by (simp add: handleRecordingStop2_def pl Let_def split: save_response.splits option.splits)
qed



section \<open>The claims\<close>

text \<open>
  C1. Whatever the arrivals, their order and their duplicates, and whichever tier drains
  a segment, the emitted transcript is in \<open>(chunk_start_time, sequence_id)\<close> order and
  holds no sequence number twice; it holds only numbers that arrived, and after the
  final flush it holds every number that arrived.
\<close>

theorem emitted_transcript_sorted_and_unique:
  "sorted_wrt transcript_le (transcripts (run events))
   \<and> distinct (map sequence_id (transcripts (run events)))
   \<and> set (map sequence_id (transcripts (run events))) \<subseteq> Some ` set (arrived events)
   \<and> set (map sequence_id (transcripts (run (events @ [FinalFlush now]))))
       = Some ` set (arrived events)"
proof -
  have i: "reconciler_inv (run events)" by (rule inv_run)
  have "transcriptBuffer (run (events @ [FinalFlush now])) = []"
    by (simp add: run_append forced_pass_empties_buffer)
  with ids_run [of "events @ [FinalFlush now]"]
  have "set (map sequence_id (transcripts (run (events @ [FinalFlush now]))))
          = Some ` set (arrived events)"
    by (simp add: arrived_append)
  with i ids_run [of events] show ?thesis
    by (auto simp: reconciler_inv_def)
qed

text \<open>
  C2. The relation \<open>isActive = (isRecording \<and> \<not> isPaused)\<close> is to hold after every
  operation, in any order of delivery. The handler of \<^verbatim>\<open>recording-resumed\<close> sets
  \<^verbatim>\<open>isActive\<close> without reading \<^verbatim>\<open>isRecording\<close>: delivered after
  \<^verbatim>\<open>recording-stopped\<close>, it leaves a state that is active and not recording.
\<close>

theorem resumed_after_stopped_is_active_not_recording:
  "state (sync_run [RecordingStarted, RecordingStopped, RecordingResumed])
     = \<lparr>isRecording = False, isPaused = False, isActive = True,
        recordingDuration = None, activeDuration = None\<rparr>
   \<and> \<not> active_consistent
         (state (sync_run [RecordingStarted, RecordingStopped, RecordingResumed]))
   \<and> \<not> active_consistent (state (sync_run [InitialSync None, RecordingResumed]))"
  by (simp add: sync_run_def initial_synchronizer_def on_recording_started_def
      on_recording_stopped_def on_recording_resumed_def startPolling_def stopPolling_def
      active_consistent_def syncWithBackend_def)

text \<open>
  C3. Once a sequence number is in the output, delivering it again, whatever follows,
  leaves the entry that carries it as it was and adds no second one; every entry emitted
  before is still in the output.
\<close>

theorem redelivery_leaves_emitted_entry_alone:
  assumes "Some (u_sequence_id payload) \<in> set (map sequence_id (transcripts (run before)))"
  shows "filter (\<lambda>t. sequence_id t = Some (u_sequence_id payload))
           (transcripts (run (before @ Arrival now payload # after)))
         = filter (\<lambda>t. sequence_id t = Some (u_sequence_id payload)) (transcripts (run before))
       \<and> length (filter (\<lambda>t. sequence_id t = Some (u_sequence_id payload))
           (transcripts (run (before @ Arrival now payload # after)))) = 1
       \<and> mset (transcripts (run before))
           \<subseteq># mset (transcripts (run (before @ Arrival now payload # after)))"
proof -
  let ?s = "run before" and ?s' = "run (before @ Arrival now payload # after)"
  from assms obtain x where x: "x \<in> set (transcripts ?s)"
    and fx: "sequence_id x = Some (u_sequence_id payload)" by auto
  have sub: "mset (transcripts ?s) \<subseteq># mset (transcripts ?s')"
    unfolding run_append using output_grows_foldl [OF inv_run] by blast
  then have x': "x \<in> set (transcripts ?s')"
    using x set_mset_mono [OF sub] by auto
  have d: "distinct (map sequence_id (transcripts ?s))"
    and d': "distinct (map sequence_id (transcripts ?s'))"
    using inv_run [of before] inv_run [of "before @ Arrival now payload # after"]
    by (simp_all add: reconciler_inv_def)
  have "filter (\<lambda>t. sequence_id t = sequence_id x) (transcripts ?s) = [x]"
    using d x by (rule filter_unique)
  moreover have "filter (\<lambda>t. sequence_id t = sequence_id x) (transcripts ?s') = [x]"
    using d' x' by (rule filter_unique)
  ultimately show ?thesis using sub by (simp add: fx)
qed

theorem redelivery_leaves_emitted_entry_alone_witness:
  "Some 1 \<in> set (map sequence_id (transcripts (run [Arrival 1000 (segment 1 0), TimerFired 1010])))
   \<and> transcripts (run ([Arrival 1000 (segment 1 0), TimerFired 1010]
         @ Arrival 1020 (segment 1 7) # [TimerFired 1030]))
     = transcripts (run [Arrival 1000 (segment 1 0), TimerFired 1010])
   \<and> length (filter (\<lambda>t. sequence_id t = Some 1)
        (transcripts (run ([Arrival 1000 (segment 1 0), TimerFired 1010]
           @ Arrival 1020 (segment 1 7) # [TimerFired 1030])))) = 1"
proof -
  have u: "u_sequence_id (segment 1 7) = 1" by (simp add: segment_def)
  have h: "Some (u_sequence_id (segment 1 7))
             \<in> set (map sequence_id (transcripts (run [Arrival 1000 (segment 1 0), TimerFired 1010])))"
    unfolding u by (simp add: first_pass_run)
  from redelivery_leaves_emitted_entry_alone [OF h, of 1020 "[TimerFired 1030]"]
  have "length (filter (\<lambda>t. sequence_id t = Some 1)
        (transcripts (run ([Arrival 1000 (segment 1 0), TimerFired 1010]
           @ Arrival 1020 (segment 1 7) # [TimerFired 1030])))) = 1"
    unfolding u by blast
  moreover have "transcripts (run ([Arrival 1000 (segment 1 0), TimerFired 1010]
         @ Arrival 1020 (segment 1 7) # [TimerFired 1030]))
     = transcripts (run [Arrival 1000 (segment 1 0), TimerFired 1010])"
    by (simp add: first_pass_run redelivered_pass_run)
  ultimately show ?thesis using h u by simp
qed

text \<open>
  C4. When no round brings the completion event and every status shows a queue that is
  not empty, the loop makes 120 queries, leaves with \<^verbatim>\<open>elapsedTime\<close> at the 60 seconds
  of \<^verbatim>\<open>MAX_WAIT_TIME\<close> and completion not declared, and the forced flush is then called
  (the mount effect has set \<^verbatim>\<open>finalFlushRef\<close>). The loop is a total function, and the
  forced flush is called whatever the rounds bring.
\<close>

theorem timeout_then_forced_flush:
  assumes busy: "\<forall>i. \<not> complete_during_query (rounds env i)
                    \<and> \<not> complete_during_wait (rounds env i)
                    \<and> (\<exists>st. query_result (rounds env i) = Some st \<and> chunks_in_queue st \<noteq> 0)"
    and ref: "finalFlushRef pg"
  shows "elapsed (handleRecordingStop2 isCallApi env pg) = MAX_WAIT_TIME
       \<and> \<not> completed (handleRecordingStop2 isCallApi env pg)
       \<and> calls (handleRecordingStop2 isCallApi env pg)
           = concat (replicate 120 [GetTranscriptionStatus, Sleep 500])
               @ [UnlistenComplete, FinalFlushCall, Sleep 500]
       \<and> reconciler_state (page_after (handleRecordingStop2 isCallApi env pg))
           = foldl step
               (processBufferedTranscripts True (flush_now env)
                  (foldl step (reconciler_state pg) (events_before_flush env)))
               (events_after_flush env)
       \<and> (\<forall>env'. FinalFlushCall \<in> set (calls (handleRecordingStop2 isCallApi env' pg)))"
proof -
  have b: "\<forall>i. complete_during_query (rounds env i) = False
                    \<and> complete_during_wait (rounds env i) = False
                    \<and> (\<exists>st. query_result (rounds env i) = Some st \<and> chunks_in_queue st \<noteq> 0)"
    using busy by simp
  have "elapsed (handleRecordingStop2 isCallApi env pg) = MAX_WAIT_TIME
       \<and> \<not> completed (handleRecordingStop2 isCallApi env pg)
       \<and> calls (handleRecordingStop2 isCallApi env pg)
           = concat (replicate 120 [GetTranscriptionStatus, Sleep 500])
               @ [UnlistenComplete, FinalFlushCall, Sleep 500]
       \<and> reconciler_state (page_after (handleRecordingStop2 isCallApi env pg))
           = foldl step
               (processBufferedTranscripts True (flush_now env)
                  (foldl step (reconciler_state pg) (events_before_flush env)))
               (events_after_flush env)"
    unfolding handleRecordingStop2_def busy_loop_from_start [OF b]
    using ref by (simp add: Let_def MAX_WAIT_TIME_def)
  then show ?thesis using flush_always_called [OF ref] by blast
qed

theorem timeout_then_forced_flush_witness:
  "elapsed (handleRecordingStop2 True busy_env mounted_page) = 60000
   \<and> calls (handleRecordingStop2 True busy_env mounted_page)
       = concat (replicate 120 [GetTranscriptionStatus, Sleep 500])
           @ [UnlistenComplete, FinalFlushCall, Sleep 500]
   \<and> transcriptBuffer (reconciler_state (page_after (handleRecordingStop2 True busy_env mounted_page)))
       = []"
proof -
  have b: "\<forall>i. \<not> complete_during_query (rounds busy_env i)
                    \<and> \<not> complete_during_wait (rounds busy_env i)
                    \<and> (\<exists>st. query_result (rounds busy_env i) = Some st \<and> chunks_in_queue st \<noteq> 0)"
    using busy_env_busy by simp
  have r: "finalFlushRef mounted_page" by (simp add: mounted_page_def)
  from timeout_then_forced_flush [OF b r, of True]
  show ?thesis
    by (simp add: MAX_WAIT_TIME_def busy_env_def forced_pass_empties_buffer)
qed

text \<open>
  C5. Completion is declared exactly when, within the 120 rounds, some round brings the
  event (a), an empty idle queue (b) or an empty quiet queue (c), every round before it
  having changed nothing. A first status with an empty idle queue declares it at once:
  one query, \<^verbatim>\<open>elapsedTime\<close> 0, no wait.
\<close>

theorem completion_declared_exactly_when:
  "(completed (handleRecordingStop2 isCallApi env pg)
      \<longleftrightarrow> (\<exists>k<120. (\<forall>j<k. uneventful (rounds env j)) \<and> declares_completion (rounds env k)))
   \<and> (\<forall>st. query_result (rounds env 0) = Some st \<and> queue_idle st
         \<longrightarrow> poll_loop (rounds env) 0 0 False [] = (0, True, [GetTranscriptionStatus])
             \<and> elapsed (handleRecordingStop2 isCallApi env pg) = 0
             \<and> completed (handleRecordingStop2 isCallApi env pg))"
proof (intro conjI allI impI)
  have c: "completed (handleRecordingStop2 isCallApi env pg)
             = fst (snd (poll_loop (rounds env) 0 0 False []))"
    by (simp add: handleRecordingStop2_def Let_def split: prod.splits save_response.splits option.splits)
  have "fst (snd (poll_loop (rounds env) 0 0 False []))
     \<longleftrightarrow> (\<exists>k. 0 \<le> k \<and> k < 120
            \<and> (\<forall>j. 0 \<le> j \<and> j < k \<longrightarrow> uneventful (rounds env j))
            \<and> declares_completion (rounds env k))"
    by (rule poll_loop_complete_iff) simp
  then show "completed (handleRecordingStop2 isCallApi env pg)
      \<longleftrightarrow> (\<exists>k<120. (\<forall>j<k. uneventful (rounds env j)) \<and> declares_completion (rounds env k))"
    unfolding c by simp
next
  fix st assume a: "query_result (rounds env 0) = Some st \<and> queue_idle st"
  then show p: "poll_loop (rounds env) 0 0 False [] = (0, True, [GetTranscriptionStatus])"
    by (subst poll_loop.simps) (simp add: queue_idle_def MAX_WAIT_TIME_def)
  show "elapsed (handleRecordingStop2 isCallApi env pg) = 0"
    by (simp add: handleRecordingStop2_def p Let_def split: save_response.splits option.splits)
  show "completed (handleRecordingStop2 isCallApi env pg)"
    by (simp add: handleRecordingStop2_def p Let_def split: save_response.splits option.splits)
qed

theorem completion_declared_exactly_when_witness:
  "declares_completion (rounds idle_env 0)
   \<and> completed (handleRecordingStop2 True idle_env mounted_page)
   \<and> elapsed (handleRecordingStop2 True idle_env mounted_page) = 0
   \<and> poll_loop (rounds idle_env) 0 0 False [] = (0, True, [GetTranscriptionStatus])"
proof -
  let ?st = "\<lparr>chunks_in_queue = 0, is_processing = False, last_activity_ms = 200\<rparr>"
  have q: "query_result (rounds idle_env 0) = Some ?st \<and> queue_idle ?st"
    by (simp add: idle_env_def idle_round_def queue_idle_def)
  have d: "declares_completion (rounds idle_env 0)"
    by (simp add: idle_env_def idle_round_def queue_idle_def declares_completion_def)
  from completion_declared_exactly_when [of True idle_env mounted_page] q d
  show ?thesis by blast
qed




text \<open>
  C7. A sync whose query fails leaves the cached state as it was, at mount and at a
  poll tick.
\<close>

theorem sync_failure_keeps_state:
  "syncWithBackend None s = s
   \<and> sync_step s (InitialSync None) = s \<and> sync_step s (PollTick None) = s"
  by (simp add: syncWithBackend_def)




text \<open>
  C9. A forced flush right after a forced flush changes nothing: no emission, the same
  output, the same state.
\<close>

theorem forced_flush_idempotent:
  "processBufferedTranscripts True now2 (processBufferedTranscripts True now1 s)
     = processBufferedTranscripts True now1 s
   \<and> step (step s (FinalFlush now1)) (FinalFlush now2) = step s (FinalFlush now1)"
  by (simp add: pass_on_empty_buffer forced_pass_empties_buffer)

text \<open>
  C10. Every pass is to leave the buffer empty, the recent tier taking at once whatever
  the sequential drain and the stale tier leave (lines 465 and 483 say so). The age is a
  difference of two readings of the wall clock: when the pass reads an earlier time than
  the one printed into an entry's id, the age is negative, the test of line 482 fails
  with no branch after it, and an entry that the sequential drain has not taken stays
  in the buffer, nothing being emitted.
\<close>

theorem negative_age_segment_is_retained:
  "map fst (transcriptBuffer (run [Arrival 1000 (segment 2 0), TimerFired 990])) = [2]
   \<and> transcripts (run [Arrival 1000 (segment 2 0), TimerFired 990]) = []
   \<and> processingTimer (run [Arrival 1000 (segment 2 0), TimerFired 990]) = False"
  by (simp add: eval_defs)

end
